theory Spec2Isabelle
  imports Main "HOL-Library.Word" "HOL-Library.Log_Nat"
begin

section \<open>Router events\<close>

text \<open>
  Modelled from the spec: the cancellation codes are a closed set holding at least
  \<open>Redirect\<close> and \<open>SupersededByNewNavigation\<close>, plus other codes (guard rejection,
  no match, ...); \<open>OtherCode k\<close> stands for every other member. The enum itself is
  declared in \<^verbatim>\<open>../events\<close>, which \<^verbatim>\<open>packages/router/src/utils/navigations.ts\<close> imports
  and which is not among the sources.
\<close>

datatype NavigationCancellationCode = Redirect | SupersededByNewNavigation | OtherCode nat

text \<open>
  Modelled from the spec: a navigation event is a tagged variant over four kinds
  (NavigationEnd, NavigationSkipped, NavigationCancel with its code, NavigationError),
  and an event of any other kind may be emitted as well; the classes are declared in
  \<^verbatim>\<open>../events\<close> too. \<open>OtherEvent k\<close> is an object of any other class (NavigationStart,
  RoutesRecognized, ...). Two things that JavaScript allows at run time are added, so that
  no input is excluded: \<open>Nullish\<close> is a value that is not an object at all (\<^verbatim>\<open>null\<close>,
  \<^verbatim>\<open>undefined\<close>), on which a property read throws, and the \<^verbatim>\<open>code\<close> of a NavigationCancel is
  \<open>None\<close> when the property is \<^verbatim>\<open>undefined\<close>.
\<close>

datatype RouterEvent =
    NavigationEnd
  | NavigationCancel "NavigationCancellationCode option"
  | NavigationError
  | NavigationSkipped
  | OtherEvent nat
  | Nullish

datatype js_error = TypeError

text \<open>\<^verbatim>\<open>e instanceof C\<close> never throws; it is false on a value that is not an object.\<close>

fun instanceof_NavigationEnd :: "RouterEvent \<Rightarrow> bool" where
  "instanceof_NavigationEnd NavigationEnd = True"
| "instanceof_NavigationEnd _ = False"

fun instanceof_NavigationCancel :: "RouterEvent \<Rightarrow> bool" where
  "instanceof_NavigationCancel (NavigationCancel _) = True"
| "instanceof_NavigationCancel _ = False"

fun instanceof_NavigationError :: "RouterEvent \<Rightarrow> bool" where
  "instanceof_NavigationError NavigationError = True"
| "instanceof_NavigationError _ = False"

fun instanceof_NavigationSkipped :: "RouterEvent \<Rightarrow> bool" where
  "instanceof_NavigationSkipped NavigationSkipped = True"
| "instanceof_NavigationSkipped _ = False"

text \<open>
  The property read \<^verbatim>\<open>e.code\<close>: a TypeError on \<^verbatim>\<open>null\<close> and \<^verbatim>\<open>undefined\<close>, the code of
  a NavigationCancel, and \<^verbatim>\<open>undefined\<close> on an object that has no such property.
\<close>

fun get_code :: "RouterEvent \<Rightarrow> js_error + NavigationCancellationCode option" where
  "get_code Nullish = Inl TypeError"
| "get_code (NavigationCancel c) = Inr c"
| "get_code _ = Inr None"

section \<open>The navigation watcher\<close>

datatype NavigationResult = COMPLETE | FAILED | REDIRECTING

text \<open>The predicate of the first \<^verbatim>\<open>filter\<close> (navigations.ts, lines 32 to 35).\<close>

definition isNavigationOutcome :: "RouterEvent \<Rightarrow> bool" where
  "isNavigationOutcome e \<longleftrightarrow>
     instanceof_NavigationEnd e \<or> instanceof_NavigationCancel e \<or>
     instanceof_NavigationError e \<or> instanceof_NavigationSkipped e"

text \<open>
  The function given to \<^verbatim>\<open>map\<close> (lines 36 to 45). The read of \<^verbatim>\<open>e.code\<close> is the one
  place where it could throw, so its result is a sum.
\<close>

definition toNavigationResult :: "RouterEvent \<Rightarrow> js_error + NavigationResult" where
  "toNavigationResult e =
     (if instanceof_NavigationEnd e \<or> instanceof_NavigationSkipped e then Inr COMPLETE
      else
        (case (if instanceof_NavigationCancel e
               then (case get_code e of
                       Inl err \<Rightarrow> Inl err
                     | Inr code \<Rightarrow>
                         Inr (code = Some Redirect \<or> code = Some SupersededByNewNavigation))
               else Inr False) of
           Inl err \<Rightarrow> Inl err
         | Inr redirecting \<Rightarrow> Inr (if redirecting then REDIRECTING else FAILED)))"

text \<open>The predicate of the second \<^verbatim>\<open>filter\<close> (lines 46 to 48).\<close>

definition notRedirecting :: "NavigationResult \<Rightarrow> bool" where
  "notRedirecting result \<longleftrightarrow> result \<noteq> REDIRECTING"

subsection \<open>The subscription and the operators of the pipeline\<close>

text \<open>
  \<^verbatim>\<open>filter\<close>, \<^verbatim>\<open>map\<close>, \<^verbatim>\<open>take\<close> and \<^verbatim>\<open>subscribe\<close> are operators of the rxjs library. Each
  is modelled by what it does, on one value, to the one subscription that
  \<^verbatim>\<open>afterNextNavigation\<close> creates, given the observer that stands downstream of it. The
  state of that subscription:
  \<^item> \<open>seen\<close>: the counter of \<^verbatim>\<open>take(1)\<close>;
  \<^item> \<open>closed\<close>: the subscription has been torn down (the watcher is unsubscribed);
  \<^item> \<open>errored\<close>: an error notification has reached the subscriber;
  \<^item> \<open>calls\<close>: how many times \<^verbatim>\<open>action()\<close> has run (a ghost counter);
  \<^item> \<open>mapped\<close>: the values \<^verbatim>\<open>map\<close> has produced, in order (a ghost log of the
    classifications);
  \<^item> \<open>world\<close>: the caller's state, which \<^verbatim>\<open>action\<close> acts on.
\<close>

record ('r, 'w) subscription =
  seen :: nat
  closed :: bool
  errored :: "js_error option"
  calls :: nat
  mapped :: "'r list"
  world :: 'w

type_synonym ('a, 'r, 'w) observer = "'a \<Rightarrow> ('r, 'w) subscription \<Rightarrow> ('r, 'w) subscription"

definition rx_complete :: "('r, 'w) subscription \<Rightarrow> ('r, 'w) subscription" where
  "rx_complete s = s\<lparr>closed := True\<rparr>"

definition rx_error :: "js_error \<Rightarrow> ('r, 'w) subscription \<Rightarrow> ('r, 'w) subscription" where
  "rx_error err s = s\<lparr>errored := Some err, closed := True\<rparr>"

text \<open>\<^verbatim>\<open>filter(predicate)\<close>: a value goes on to the destination when the predicate holds.\<close>

definition rx_filter :: "('a \<Rightarrow> bool) \<Rightarrow> ('a, 'r, 'w) observer \<Rightarrow> ('a, 'r, 'w) observer" where
  "rx_filter predicate destination v s = (if predicate v then destination v s else s)"

text \<open>
  \<^verbatim>\<open>map(project)\<close>: the projected value goes on to the destination; an exception thrown
  by \<^verbatim>\<open>project\<close> becomes an error notification.
\<close>

definition rx_map :: "('a \<Rightarrow> js_error + 'r) \<Rightarrow> ('r, 'r, 'w) observer \<Rightarrow> ('a, 'r, 'w) observer" where
  "rx_map project destination v s =
     (case project v of
        Inl err \<Rightarrow> rx_error err s
      | Inr r \<Rightarrow> destination r (s\<lparr>mapped := mapped s @ [r]\<rparr>))"

text \<open>
  \<^verbatim>\<open>take(count)\<close>, for a positive count: it counts the value, passes it on while the
  counter is within \<^verbatim>\<open>count\<close>, and completes (which unsubscribes from the source) once
  the counter has reached \<^verbatim>\<open>count\<close>.
\<close>

definition rx_take :: "nat \<Rightarrow> ('a, 'r, 'w) observer \<Rightarrow> ('a, 'r, 'w) observer" where
  "rx_take count destination v s =
     (let s1 = s\<lparr>seen := seen s + 1\<rparr> in
      if seen s1 \<le> count then
        (let s2 = destination v s1 in if count \<le> seen s2 then rx_complete s2 else s2)
      else s1)"

text \<open>
  The callback given to \<^verbatim>\<open>subscribe\<close> (lines 51 to 53): it calls \<^verbatim>\<open>action()\<close>. The
  action is the caller's: a transformer of the caller's state that returns normally.
\<close>

definition subscriber :: "('w \<Rightarrow> 'w) \<Rightarrow> ('a, 'r, 'w) observer" where
  "subscriber action v s = s\<lparr>calls := calls s + 1, world := action (world s)\<rparr>"

definition pipeline :: "('w \<Rightarrow> 'w) \<Rightarrow> (RouterEvent, NavigationResult, 'w) observer" where
  "pipeline action =
     rx_filter isNavigationOutcome
       (rx_map toNavigationResult
         (rx_filter notRedirecting
           (rx_take 1 (subscriber action))))"

text \<open>
  What \<^verbatim>\<open>router.events\<close> does after the subscription: it emits an event, or it
  completes. An emission reaches only a subscription that is still open. Notifications
  are delivered one at a time: each is processed to its end before the next one, so the
  action does not make the router emit while it runs.
\<close>

datatype notification = Next RouterEvent | Complete

fun emit :: "('w \<Rightarrow> 'w) \<Rightarrow> notification \<Rightarrow>
    (NavigationResult, 'w) subscription \<Rightarrow> (NavigationResult, 'w) subscription" where
  "emit action (Next e) s = (if closed s then s else pipeline action e s)"
| "emit action Complete s = (if closed s then s else rx_complete s)"

fun run :: "('w \<Rightarrow> 'w) \<Rightarrow> notification list \<Rightarrow>
    (NavigationResult, 'w) subscription \<Rightarrow> (NavigationResult, 'w) subscription" where
  "run action [] s = s"
| "run action (n # ns) s = run action ns (emit action n s)"

definition subscribe :: "'w \<Rightarrow> (NavigationResult, 'w) subscription" where
  "subscribe w = \<lparr>seen = 0, closed = False, errored = None, calls = 0, mapped = [], world = w\<rparr>"

text \<open>
  \<^verbatim>\<open>afterNextNavigation(router, action)\<close>: the router is represented by the notifications
  its event stream delivers after the call, \<open>w\<close> is the caller's state at the call, and
  the result is the subscription after the last notification.
\<close>

definition afterNextNavigation :: "('w \<Rightarrow> 'w) \<Rightarrow> notification list \<Rightarrow> 'w \<Rightarrow>
    (NavigationResult, 'w) subscription" where
  "afterNextNavigation action ns w = run action ns (subscribe w)"

text \<open>The subscription after each notification in turn.\<close>

fun trace :: "('w \<Rightarrow> 'w) \<Rightarrow> notification list \<Rightarrow>
    (NavigationResult, 'w) subscription \<Rightarrow> (NavigationResult, 'w) subscription list" where
  "trace action [] s = []"
| "trace action (n # ns) s = emit action n s # trace action ns (emit action n s)"

text \<open>What a caller can observe of a subscription: the invocations, and whether it is open.\<close>

definition observe :: "('r, 'w) subscription \<Rightarrow> nat \<times> bool \<times> js_error option" where
  "observe s = (calls s, closed s, errored s)"

text \<open>
  The outcome of an event, as the first three stages of the pipeline compute it:
  \<open>None\<close> for an event the first filter drops.
\<close>

definition outcome :: "RouterEvent \<Rightarrow> NavigationResult option" where
  "outcome e =
     (if isNavigationOutcome e
      then (case toNavigationResult e of Inl err \<Rightarrow> None | Inr r \<Rightarrow> Some r)
      else None)"

definition terminal :: "RouterEvent \<Rightarrow> bool" where
  "terminal e \<longleftrightarrow> outcome e = Some COMPLETE \<or> outcome e = Some FAILED"

section \<open>The server context\<close>

text \<open>
  A JavaScript string is a sequence of UTF-16 code units. \<open>js\<close> writes an ASCII literal
  as such a sequence.
\<close>

type_synonym js_string = "16 word list"

definition js :: "string \<Rightarrow> js_string" where
  "js cs = map of_char cs"

text \<open>\<^verbatim>\<open>const DEFAULT_SERVER_CONTEXT = 'other'\<close> (platform-server/src/utils.ts, line 119).\<close>

definition DEFAULT_SERVER_CONTEXT :: js_string where
  "DEFAULT_SERVER_CONTEXT = js ''other''"

text \<open>
  The character class \<^verbatim>\<open>[a-zA-Z0-9\-]\<close>. The regular expression of the source has no
  \<^verbatim>\<open>u\<close> and no \<^verbatim>\<open>i\<close> flag: it tests one code unit at a time, by its value.
\<close>

definition allowedChar :: "16 word \<Rightarrow> bool" where
  "allowedChar c \<longleftrightarrow>
     (of_char CHR ''a'' \<le> c \<and> c \<le> of_char CHR ''z'') \<or>
     (of_char CHR ''A'' \<le> c \<and> c \<le> of_char CHR ''Z'') \<or>
     (of_char CHR ''0'' \<le> c \<and> c \<le> of_char CHR ''9'') \<or>
     c = of_char CHR ''-''"

text \<open>
  \<^verbatim>\<open>sanitizeServerContext\<close> (lines 133 to 136):
  \<^verbatim>\<open>serverContext.replace(/[^a-zA-Z0-9\-]/g, '')\<close> deletes every code unit outside the
  class, which is to keep the code units inside it.
\<close>

definition sanitizeServerContext :: "js_string \<Rightarrow> js_string" where
  "sanitizeServerContext serverContext =
     (let context = filter allowedChar serverContext
      in if length context > 0 then context else DEFAULT_SERVER_CONTEXT)"

section \<open>The random application id\<close>

text \<open>
  \<^verbatim>\<open>_randomChar\<close> (core/src/application_tokens.ts, lines 41 to 43) computes
  \<^verbatim>\<open>String.fromCharCode(97 + Math.floor(Math.random() * 25))\<close> on IEEE 754 doubles.
  Only finite doubles that are not negative occur: \<open>Double m e\<close> is the number
  \<open>m * 2 ^ e\<close>. A double has a mantissa below \<open>2 ^ 53\<close> and an exponent from \<open>- 1074\<close>
  (the subnormal numbers and the smallest normal ones) to \<open>971\<close>.
\<close>

datatype double = Double (mantissa: nat) (exponent: int)

definition is_double :: "double \<Rightarrow> bool" where
  "is_double d \<longleftrightarrow> mantissa d < 2 ^ 53 \<and> - 1074 \<le> exponent d \<and> exponent d \<le> 971"

text \<open>The number \<open>m * 2 ^ e\<close> is below 1.\<close>

definition below_one :: "double \<Rightarrow> bool" where
  "below_one d \<longleftrightarrow>
     mantissa d = 0 \<or> (exponent d < 0 \<and> mantissa d < 2 ^ nat (- exponent d))"

text \<open>
  The double nearest to the exact number \<open>p * 2 ^ e\<close>, ties to the even mantissa:
  a \<open>p\<close> of at most 53 bits is kept; a longer one loses its low \<open>sh\<close> bits, rounded,
  and the exponent grows by \<open>sh\<close>. A mantissa rounded up to \<open>2 ^ 53\<close> is written as
  \<open>2 ^ 52\<close> at the next exponent. The exponent only grows, so no result is below the
  subnormal range; overflow to infinity is left out, which no product of a number below 1
  with 25 reaches.
\<close>

definition round_to_double :: "nat \<Rightarrow> int \<Rightarrow> double" where
  "round_to_double p e =
     (let n = floorlog 2 p in
      if n \<le> 53 then Double p e
      else
        (let sh = n - 53; q = p div 2 ^ sh; r = p mod 2 ^ sh; half = 2 ^ (sh - 1);
             m = (if half < r \<or> (r = half \<and> odd q) then q + 1 else q)
         in if m = 2 ^ 53 then Double (2 ^ 52) (e + int sh + 1) else Double m (e + int sh)))"

text \<open>\<^verbatim>\<open>d * 25\<close>: the exact product, rounded.\<close>

definition times25 :: "double \<Rightarrow> double" where
  "times25 d = round_to_double (mantissa d * 25) (exponent d)"

text \<open>\<^verbatim>\<open>Math.floor\<close>, as the integer it returns.\<close>

definition Math_floor :: "double \<Rightarrow> nat" where
  "Math_floor d =
     (if 0 \<le> exponent d then mantissa d * 2 ^ nat (exponent d)
      else mantissa d div 2 ^ nat (- exponent d))"

text \<open>
  \<^verbatim>\<open>String.fromCharCode(n)\<close>: the string of the one code unit \<open>n mod 2 ^ 16\<close>.
\<close>

definition fromCharCode :: "nat \<Rightarrow> js_string" where
  "fromCharCode n = [of_nat n]"

text \<open>
  \<^verbatim>\<open>Math.random()\<close> draws from a generator, whose state is the sequence of the draws to
  come: a call returns the first one and leaves the rest.
\<close>

definition Math_random :: "(nat \<Rightarrow> double) \<Rightarrow> double \<times> (nat \<Rightarrow> double)" where
  "Math_random g = (g 0, \<lambda>i. g (Suc i))"

text \<open>
  \<^verbatim>\<open>_randomChar\<close>. The sum \<^verbatim>\<open>97 + n\<close> of two small integers is exact in doubles.
\<close>

definition randomChar :: "(nat \<Rightarrow> double) \<Rightarrow> js_string \<times> (nat \<Rightarrow> double)" where
  "randomChar g =
     (let (r, g') = Math_random g
      in (fromCharCode (97 + Math_floor (times25 r)), g'))"

text \<open>
  \<^verbatim>\<open>_appIdRandomProviderFactory\<close> (lines 27 to 29): the template literal calls
  \<^verbatim>\<open>_randomChar()\<close> three times, left to right, and concatenates.
\<close>

definition appIdRandomProviderFactory :: "(nat \<Rightarrow> double) \<Rightarrow> js_string \<times> (nat \<Rightarrow> double)" where
  "appIdRandomProviderFactory g =
     (let (c1, g1) = randomChar g;
          (c2, g2) = randomChar g1;
          (c3, g3) = randomChar g2
      in (c1 @ c2 @ c3, g3))"

section \<open>Classification\<close>

lemma outcome_simps:
  "outcome NavigationEnd = Some COMPLETE"
  "outcome NavigationSkipped = Some COMPLETE"
  "outcome NavigationError = Some FAILED"
  "outcome (NavigationCancel c) =
     Some (if c = Some Redirect \<or> c = Some SupersededByNewNavigation then REDIRECTING else FAILED)"
  "outcome (OtherEvent k) = None"
  "outcome Nullish = None"
  by (simp_all add: outcome_def isNavigationOutcome_def toNavigationResult_def)

section \<open>How one notification and a run of them act on the subscription\<close>

lemma toNavigationResult_total: "\<exists>r. toNavigationResult e = Inr r"
  by (cases e) (simp_all add: toNavigationResult_def)

lemma outcome_None_iff: "outcome e = None \<longleftrightarrow> \<not> isNavigationOutcome e"
  by (cases e) (simp_all add: outcome_def toNavigationResult_def isNavigationOutcome_def)

lemma outcome_Some_iff:
  "outcome e = Some r \<longleftrightarrow> isNavigationOutcome e \<and> toNavigationResult e = Inr r"
  by (cases e) (auto simp add: outcome_def toNavigationResult_def isNavigationOutcome_def)

lemma emit_closed: "closed s \<Longrightarrow> emit a n s = s"
  by (cases n) simp_all

lemma run_closed: "closed s \<Longrightarrow> run a ns s = s"
  by (induction ns) (simp_all add: emit_closed)

lemma run_append: "run a (xs @ ys) s = run a ys (run a xs s)"
  by (induction xs arbitrary: s) simp_all

lemma emit_dropped: "outcome e = None \<Longrightarrow> emit a (Next e) s = s"
  by (simp add: outcome_None_iff pipeline_def rx_filter_def)

lemma emit_redirecting:
  "outcome e = Some REDIRECTING \<Longrightarrow> \<not> closed s \<Longrightarrow>
   emit a (Next e) s = s\<lparr>mapped := mapped s @ [REDIRECTING]\<rparr>"
  by (simp add: outcome_Some_iff pipeline_def rx_filter_def rx_map_def notRedirecting_def)

lemma emit_terminal:
  "outcome e = Some r \<Longrightarrow> r \<noteq> REDIRECTING \<Longrightarrow> \<not> closed s \<Longrightarrow> seen s = 0 \<Longrightarrow>
   emit a (Next e) s =
     s\<lparr>seen := 1, closed := True, calls := calls s + 1,
       mapped := mapped s @ [r], world := a (world s)\<rparr>"
  by (simp add: outcome_Some_iff pipeline_def rx_filter_def rx_map_def
      notRedirecting_def rx_take_def subscriber_def rx_complete_def Let_def)

lemma run_nonterminal:
  "\<forall>e\<in>set evs. \<not> terminal e \<Longrightarrow> \<not> closed s \<Longrightarrow>
   run a (map Next evs) s = s\<lparr>mapped := mapped s @ List.map_filter outcome evs\<rparr>"
proof (induction evs arbitrary: s)
  case Nil
  then show ?case by (simp add: List.map_filter_simps)
next
  case (Cons e evs)
  show ?case
  proof (cases "outcome e")
    case None
    with Cons show ?thesis by (simp add: emit_dropped List.map_filter_simps del: emit.simps)
  next
    case (Some r)
    with Cons.prems have r: "r = REDIRECTING"
      by (cases r) (simp_all add: terminal_def)
    with Some Cons show ?thesis
      by (simp add: emit_redirecting List.map_filter_simps del: emit.simps)
  qed
qed


lemma afterNextNavigation_nonterminal:
  "\<forall>e\<in>set evs. \<not> terminal e \<Longrightarrow>
   afterNextNavigation a (map Next evs) w =
     \<lparr>seen = 0, closed = False, errored = None, calls = 0,
      mapped = List.map_filter outcome evs, world = w\<rparr>"
  by (simp add: afterNextNavigation_def run_nonterminal subscribe_def)

lemma terminal_outcome: "terminal e \<Longrightarrow> \<exists>r. outcome e = Some r \<and> r \<noteq> REDIRECTING"
  by (auto simp add: terminal_def)

lemma afterNextNavigation_first_terminal:
  assumes "\<forall>e\<in>set pre. \<not> terminal e" and "terminal t"
  shows "afterNextNavigation a (map Next pre @ Next t # later) w =
     \<lparr>seen = 1, closed = True, errored = None, calls = 1,
      mapped = List.map_filter outcome (pre @ [t]), world = a w\<rparr>"
proof -
  from assms(2) obtain r where r: "outcome t = Some r" "r \<noteq> REDIRECTING"
    using terminal_outcome by blast
  let ?s = "afterNextNavigation a (map Next pre) w"
  have s: "?s = \<lparr>seen = 0, closed = False, errored = None, calls = 0,
      mapped = List.map_filter outcome pre, world = w\<rparr>"
    using assms(1) by (rule afterNextNavigation_nonterminal)
  have "emit a (Next t) ?s = \<lparr>seen = 1, closed = True, errored = None, calls = 1,
      mapped = List.map_filter outcome pre @ [r], world = a w\<rparr>"
    by (subst emit_terminal [OF r]) (simp_all add: s)
  moreover have "List.map_filter outcome (pre @ [t]) = List.map_filter outcome pre @ [r]"
    by (simp add: List.map_filter_def r)
  moreover have "afterNextNavigation a (map Next pre @ Next t # later) w =
      run a later (emit a (Next t) ?s)"
    by (simp add: afterNextNavigation_def run_append)
  ultimately show ?thesis
    by (simp add: run_closed)
qed

lemma emit_unrecognized: "\<not> isNavigationOutcome e \<Longrightarrow> emit a (Next e) s = s"
  by (simp add: pipeline_def rx_filter_def)

lemma run_filter_recognized:
  "run a (map Next (filter isNavigationOutcome evs)) s = run a (map Next evs) s"
  by (induction evs arbitrary: s) (simp_all add: emit_unrecognized del: emit.simps)

lemma trace_filter_recognized:
  "trace a (map Next (filter isNavigationOutcome evs)) s =
   map snd (filter (\<lambda>(e, s'). isNavigationOutcome e) (zip evs (trace a (map Next evs) s)))"
  by (induction evs arbitrary: s) (simp_all add: emit_unrecognized del: emit.simps)

lemma emit_errored: "errored (emit a n s) = errored s"
proof (cases n)
  case (Next e)
  obtain r where "toNavigationResult e = Inr r"
    using toNavigationResult_total by blast
  then show ?thesis
    by (simp add: Next pipeline_def rx_filter_def rx_map_def rx_take_def subscriber_def
        rx_complete_def Let_def)
next
  case Complete
  then show ?thesis by (simp add: rx_complete_def)
qed

lemma run_errored: "errored (run a ns s) = errored s"
  by (induction ns arbitrary: s) (simp_all add: emit_errored del: emit.simps)

lemma emit_behaviour:
  assumes "seen s = seen s'" "closed s = closed s'" "errored s = errored s'"
    "calls s = calls s'" "mapped s = mapped s'"
  shows "seen (emit a n s) = seen (emit a' n s') \<and>
     closed (emit a n s) = closed (emit a' n s') \<and>
     errored (emit a n s) = errored (emit a' n s') \<and>
     calls (emit a n s) = calls (emit a' n s') \<and>
     mapped (emit a n s) = mapped (emit a' n s')"
proof (cases n)
  case (Next e)
  obtain r where "toNavigationResult e = Inr r"
    using toNavigationResult_total by blast
  with assms show ?thesis
    by (simp add: Next pipeline_def rx_filter_def rx_map_def rx_take_def subscriber_def
        rx_complete_def Let_def)
next
  case Complete
  with assms show ?thesis by (simp add: rx_complete_def)
qed

lemma trace_behaviour:
  assumes "seen s = seen s'" "closed s = closed s'" "errored s = errored s'"
    "calls s = calls s'" "mapped s = mapped s'"
  shows "map observe (trace a ns s) = map observe (trace a' ns s') \<and>
     map mapped (trace a ns s) = map mapped (trace a' ns s')"
  using assms
proof (induction ns arbitrary: s s')
  case Nil
  then show ?case by simp
next
  case (Cons n ns)
  from emit_behaviour [OF Cons.prems, of a n a']
  have e: "seen (emit a n s) = seen (emit a' n s')"
    "closed (emit a n s) = closed (emit a' n s')"
    "errored (emit a n s) = errored (emit a' n s')"
    "calls (emit a n s) = calls (emit a' n s')"
    "mapped (emit a n s) = mapped (emit a' n s')"
    by blast+
  from Cons.IH [OF e] e show ?case
    by (simp add: observe_def del: emit.simps)
qed

lemma emit_mapped_update:
  "\<exists>m'. emit a n (s\<lparr>mapped := m\<rparr>) = (emit a n s)\<lparr>mapped := m'\<rparr>"
proof (cases n)
  case (Next e)
  obtain r where r: "toNavigationResult e = Inr r"
    using toNavigationResult_total by blast
  show ?thesis
  proof (cases "closed s \<or> \<not> isNavigationOutcome e")
    case True
    then have "emit a n (s\<lparr>mapped := m\<rparr>) = (emit a n s)\<lparr>mapped := m\<rparr>"
      by (auto simp add: Next pipeline_def rx_filter_def)
    then show ?thesis by blast
  next
    case False
    then have "emit a n (s\<lparr>mapped := m\<rparr>) = (emit a n s)\<lparr>mapped := m @ [r]\<rparr>"
      by (simp add: Next r pipeline_def rx_filter_def rx_map_def rx_take_def subscriber_def
          rx_complete_def Let_def)
    then show ?thesis by blast
  qed
next
  case Complete
  have "emit a n (s\<lparr>mapped := m\<rparr>) = (emit a n s)\<lparr>mapped := m\<rparr>"
    by (simp add: Complete rx_complete_def)
  then show ?thesis by blast
qed

lemma run_mapped_update:
  "\<exists>m'. run a ns (s\<lparr>mapped := m\<rparr>) = (run a ns s)\<lparr>mapped := m'\<rparr>"
proof (induction ns arbitrary: s m)
  case Nil
  show ?case by auto
next
  case (Cons n ns)
  obtain m1 where "emit a n (s\<lparr>mapped := m\<rparr>) = (emit a n s)\<lparr>mapped := m1\<rparr>"
    using emit_mapped_update by blast
  with Cons.IH [where s = "emit a n s" and m = m1] show ?case
    by (simp del: emit.simps)
qed

lemma trace_eq_runs:
  "trace a ns s = map (\<lambda>k. run a (take (Suc k) ns) s) [0..<length ns]"
proof (induction ns arbitrary: s)
  case Nil
  show ?case by simp
next
  case (Cons n ns)
  have "map (\<lambda>k. run a (take (Suc k) (n # ns)) s) [0..<length (n # ns)] =
      run a [n] s # map (\<lambda>k. run a (take (Suc k) ns) (emit a n s)) [0..<length ns]"
    by (simp add: upt_conv_Cons map_Suc_upt [symmetric] del: upt_Suc emit.simps)
  with Cons show ?case
    by (simp del: emit.simps upt_Suc)
qed

lemma redirect_continues:
  assumes "outcome e = Some REDIRECTING"
  shows "\<exists>m. run a (Next e # ns) s = (run a ns s)\<lparr>mapped := m\<rparr>"
proof (cases "closed s")
  case True
  then have "run a (Next e # ns) s = (run a ns s)\<lparr>mapped := mapped (run a ns s)\<rparr>"
    by (simp add: emit_closed del: emit.simps)
  then show ?thesis by blast
next
  case False
  then show ?thesis
    using run_mapped_update [where a = a and ns = ns and s = s and m = "mapped s @ [REDIRECTING]"]
    by (simp add: emit_redirecting [OF assms] del: emit.simps)
qed

lemma run_behaviour:
  assumes "seen s = seen s'" "closed s = closed s'" "errored s = errored s'"
    "calls s = calls s'" "mapped s = mapped s'"
  shows "observe (run a ns s) = observe (run a' ns s') \<and>
     mapped (run a ns s) = mapped (run a' ns s') \<and> seen (run a ns s) = seen (run a' ns s')"
  using assms
proof (induction ns arbitrary: s s')
  case Nil
  then show ?case by (simp add: observe_def)
next
  case (Cons n ns)
  from emit_behaviour [OF Cons.prems, of a n a']
  have e: "seen (emit a n s) = seen (emit a' n s')"
    "closed (emit a n s) = closed (emit a' n s')"
    "errored (emit a n s) = errored (emit a' n s')"
    "calls (emit a n s) = calls (emit a' n s')"
    "mapped (emit a n s) = mapped (emit a' n s')"
    by blast+
  from Cons.IH [OF e] show ?case
    by (simp del: emit.simps)
qed

section \<open>The claims about the navigation watcher\<close>

text \<open>
  C1. In a sequence of events with exactly one terminal event (outcome COMPLETE or
  FAILED), preceded only by events of outcome REDIRECTING, the action is called exactly
  once, and it is called at the terminal event: after the first \<open>k\<close> events the number
  of calls is 0 as long as \<open>k\<close> does not go past the events before the terminal one, and 1
  from the terminal event on. The caller's state at the end is the action applied once.
\<close>

theorem afterNextNavigation_exactly_once:
  assumes "\<forall>e\<in>set pre. outcome e = Some REDIRECTING"
    and "terminal t"
    and "\<forall>e\<in>set post. \<not> terminal e"
  shows "calls (afterNextNavigation action (map Next (pre @ t # post)) w) = 1 \<and>
     world (afterNextNavigation action (map Next (pre @ t # post)) w) = action w \<and>
     (\<forall>k. calls (afterNextNavigation action (map Next (take k (pre @ t # post))) w) =
        (if k \<le> length pre then 0 else 1))"
proof -
  have pre: "\<forall>e\<in>set pre. \<not> terminal e"
    using assms(1) by (simp add: terminal_def)
  have full: "afterNextNavigation action (map Next (pre @ t # post)) w =
     \<lparr>seen = 1, closed = True, errored = None, calls = 1,
      mapped = List.map_filter outcome (pre @ [t]), world = action w\<rparr>"
    using afterNextNavigation_first_terminal [OF pre assms(2), of action "map Next post" w]
    by simp
  have "calls (afterNextNavigation action (map Next (take k (pre @ t # post))) w) =
        (if k \<le> length pre then 0 else 1)" for k
  proof (cases "k \<le> length pre")
    case True
    then have "take k (pre @ t # post) = take k pre" by simp
    moreover have "\<forall>e\<in>set (take k pre). \<not> terminal e"
      using pre by (meson in_set_takeD)
    ultimately show ?thesis
      using True by (simp add: afterNextNavigation_nonterminal)
  next
    case False
    then obtain j where j: "k = length pre + Suc j"
      by (metis add_Suc_right less_imp_Suc_add not_le)
    have "take k (pre @ t # post) = pre @ t # take j post"
      by (simp add: j)
    then have "map Next (take k (pre @ t # post)) = map Next pre @ Next t # map Next (take j post)"
      by simp
    then show ?thesis
      using False afterNextNavigation_first_terminal [OF pre assms(2), of action "map Next (take j post)" w]
      by simp
  qed
  with full show ?thesis by simp
qed

theorem afterNextNavigation_exactly_once_witness:
  "calls (afterNextNavigation Suc
      (map Next ([NavigationCancel (Some Redirect)] @ NavigationEnd # [OtherEvent 0])) (0::nat)) = 1 \<and>
   world (afterNextNavigation Suc
      (map Next ([NavigationCancel (Some Redirect)] @ NavigationEnd # [OtherEvent 0])) (0::nat)) = 1 \<and>
   calls (afterNextNavigation Suc
      (map Next (take 1 ([NavigationCancel (Some Redirect)] @ NavigationEnd # [OtherEvent 0]))) (0::nat)) = 0"
proof -
  have pre: "\<forall>e\<in>set [NavigationCancel (Some Redirect)]. outcome e = Some REDIRECTING"
    by (simp add: outcome_simps)
  have t: "terminal NavigationEnd"
    by (simp add: terminal_def outcome_simps)
  have post: "\<forall>e\<in>set [OtherEvent 0]. \<not> terminal e"
    by (simp add: terminal_def outcome_simps)
  note h = afterNextNavigation_exactly_once [OF pre t post, of Suc "0::nat"]
  from h have "calls (afterNextNavigation Suc
      (map Next (take 1 ([NavigationCancel (Some Redirect)] @ NavigationEnd # [OtherEvent 0]))) (0::nat)) =
      (if (1::nat) \<le> length [NavigationCancel (Some Redirect)] then 0 else 1)"
    by blast
  with h show ?thesis by simp
qed

text \<open>
  C2. The classification: NavigationEnd and NavigationSkipped are COMPLETE; a
  NavigationCancel with code Redirect or SupersededByNewNavigation is REDIRECTING; a
  NavigationCancel with any other code (also an absent one) and NavigationError are
  FAILED. The single event NavigationSkipped makes the action run exactly once.
\<close>

theorem classification_table:
  "outcome NavigationEnd = Some COMPLETE \<and>
   outcome NavigationSkipped = Some COMPLETE \<and>
   outcome (NavigationCancel (Some Redirect)) = Some REDIRECTING \<and>
   outcome (NavigationCancel (Some SupersededByNewNavigation)) = Some REDIRECTING \<and>
   (code \<noteq> Some Redirect \<and> code \<noteq> Some SupersededByNewNavigation \<longrightarrow>
      outcome (NavigationCancel code) = Some FAILED) \<and>
   outcome NavigationError = Some FAILED \<and>
   calls (afterNextNavigation action [Next NavigationSkipped] w) = 1 \<and>
   world (afterNextNavigation action [Next NavigationSkipped] w) = action w"
proof -
  have "terminal NavigationSkipped"
    by (simp add: terminal_def outcome_simps)
  then have "afterNextNavigation action (map Next [] @ Next NavigationSkipped # []) w =
     \<lparr>seen = 1, closed = True, errored = None, calls = 1,
      mapped = List.map_filter outcome ([] @ [NavigationSkipped]), world = action w\<rparr>"
    by (intro afterNextNavigation_first_terminal) simp_all
  then show ?thesis
    by (simp add: outcome_simps)
qed

theorem classification_table_witness:
  "outcome (NavigationCancel (Some (OtherCode 3))) = Some FAILED \<and>
   outcome (NavigationCancel None) = Some FAILED \<and>
   calls (afterNextNavigation Suc [Next NavigationSkipped] (0::nat)) = 1"
  using classification_table [of "Some (OtherCode 3)" Suc "0::nat"]
    classification_table [of None Suc "0::nat"]
  by simp

text \<open>
  C3. A NavigationCancel with code Redirect or SupersededByNewNavigation is classified
  REDIRECTING, and delivering it in any state of the subscription calls no action,
  leaves the caller's state alone, does not unsubscribe and does not use up
  \<^verbatim>\<open>take(1)\<close>; after any sequence of notifications, what the caller observes is the same
  before and after such an event, and a run that starts with such an event ends as the
  run without it does, up to the log of classifications. For the events Cancel(Redirect),
  Cancel(SupersededByNewNavigation), NavigationEnd the action runs once, at the third.
\<close>

theorem redirecting_keeps_waiting:
  assumes "e = NavigationCancel (Some Redirect) \<or>
           e = NavigationCancel (Some SupersededByNewNavigation)"
  shows "outcome e = Some REDIRECTING \<and>
     calls (emit action (Next e) s) = calls s \<and>
     world (emit action (Next e) s) = world s \<and>
     closed (emit action (Next e) s) = closed s \<and>
     seen (emit action (Next e) s) = seen s \<and>
     errored (emit action (Next e) s) = errored s \<and>
     observe (afterNextNavigation action (ns @ [Next e]) w) =
       observe (afterNextNavigation action ns w) \<and>
     (\<exists>m. run action (Next e # later) s = (run action later s)\<lparr>mapped := m\<rparr>) \<and>
     map observe (trace action
        [Next (NavigationCancel (Some Redirect)),
         Next (NavigationCancel (Some SupersededByNewNavigation)),
         Next NavigationEnd] (subscribe w)) =
       [(0, False, None), (0, False, None), (1, True, None)]"
proof -
  have r: "outcome e = Some REDIRECTING"
    using assms by (auto simp add: outcome_simps)
  have step: "emit action (Next e) s' =
      (if closed s' then s' else s'\<lparr>mapped := mapped s' @ [REDIRECTING]\<rparr>)" for s'
    by (cases "closed s'") (simp_all add: emit_redirecting [OF r] emit_closed del: emit.simps)
  have "afterNextNavigation action (ns @ [Next e]) w =
      emit action (Next e) (afterNextNavigation action ns w)"
    by (simp add: afterNextNavigation_def run_append)
  then have "observe (afterNextNavigation action (ns @ [Next e]) w) =
       observe (afterNextNavigation action ns w)"
    by (simp add: step observe_def del: emit.simps)
  moreover have "map observe (trace action
        [Next (NavigationCancel (Some Redirect)),
         Next (NavigationCancel (Some SupersededByNewNavigation)),
         Next NavigationEnd] (subscribe w)) =
       [(0, False, None), (0, False, None), (1, True, None)]"
    by (simp add: subscribe_def observe_def pipeline_def rx_filter_def rx_map_def rx_take_def
        rx_complete_def subscriber_def isNavigationOutcome_def toNavigationResult_def
        notRedirecting_def Let_def)
  moreover have "\<exists>m. run action (Next e # later) s = (run action later s)\<lparr>mapped := m\<rparr>"
    using r by (rule redirect_continues)
  ultimately show ?thesis
    using r by (simp add: step del: emit.simps run.simps)
qed

theorem redirecting_keeps_waiting_witness:
  "outcome (NavigationCancel (Some Redirect)) = Some REDIRECTING \<and>
   closed (emit Suc (Next (NavigationCancel (Some Redirect))) (subscribe (0::nat))) = False \<and>
   calls (emit Suc (Next (NavigationCancel (Some Redirect))) (subscribe (0::nat))) = 0"
  using redirecting_keeps_waiting
    [of "NavigationCancel (Some Redirect)" Suc "subscribe (0::nat)" "[]" "0::nat" "[]"]
  by (simp add: subscribe_def)

text \<open>
  C4. Events are classified in the order of emission, and the first terminal event wins:
  when no event of \<open>pre\<close> is terminal and \<open>t\<close> is, then whatever is emitted later
  (terminal events too), the subscription ends exactly as it is right after \<open>t\<close>. The
  action has run once, at \<open>t\<close> and not before; the subscription is closed; the counter
  of \<^verbatim>\<open>take(1)\<close> is 1; and the classifications made are those of \<open>pre\<close> and \<open>t\<close>, in
  order: no later event is classified or counted.
\<close>

theorem first_terminal_wins:
  assumes "\<forall>e\<in>set pre. \<not> terminal e" and "terminal t"
  shows "afterNextNavigation action (map Next pre @ Next t # later) w =
       afterNextNavigation action (map Next pre @ [Next t]) w \<and>
     calls (afterNextNavigation action (map Next pre) w) = 0 \<and>
     \<not> closed (afterNextNavigation action (map Next pre) w) \<and>
     calls (afterNextNavigation action (map Next pre @ Next t # later) w) = 1 \<and>
     world (afterNextNavigation action (map Next pre @ Next t # later) w) = action w \<and>
     closed (afterNextNavigation action (map Next pre @ Next t # later) w) \<and>
     seen (afterNextNavigation action (map Next pre @ Next t # later) w) = 1 \<and>
     mapped (afterNextNavigation action (map Next pre @ Next t # later) w) =
       List.map_filter outcome (pre @ [t])"
  using afterNextNavigation_first_terminal [OF assms, of action later w]
    afterNextNavigation_first_terminal [OF assms, of action "[]" w]
    afterNextNavigation_nonterminal [OF assms(1), of action w]
  by simp

theorem first_terminal_wins_witness:
  "afterNextNavigation Suc
      (map Next [NavigationCancel (Some Redirect)] @ Next NavigationError #
         [Next NavigationEnd, Next NavigationSkipped]) (0::nat) =
     afterNextNavigation Suc
      (map Next [NavigationCancel (Some Redirect)] @ [Next NavigationError]) 0 \<and>
   calls (afterNextNavigation Suc
      (map Next [NavigationCancel (Some Redirect)] @ Next NavigationError #
         [Next NavigationEnd, Next NavigationSkipped]) (0::nat)) = 1 \<and>
   mapped (afterNextNavigation Suc
      (map Next [NavigationCancel (Some Redirect)] @ Next NavigationError #
         [Next NavigationEnd, Next NavigationSkipped]) (0::nat)) = [REDIRECTING, FAILED]"
proof -
  have pre: "\<forall>e\<in>set [NavigationCancel (Some Redirect)]. \<not> terminal e"
    by (simp add: terminal_def outcome_simps)
  have t: "terminal NavigationError"
    by (simp add: terminal_def outcome_simps)
  have m: "List.map_filter outcome ([NavigationCancel (Some Redirect)] @ [NavigationError]) =
      [REDIRECTING, FAILED]"
    by (simp add: List.map_filter_simps outcome_simps)
  show ?thesis
    using first_terminal_wins [OF pre t, of Suc "[Next NavigationEnd, Next NavigationSkipped]" "0::nat"]
    unfolding m by blast
qed

text \<open>
  C5. When the event source completes and no event before was terminal (events
  classified REDIRECTING, events of other kinds, or no event at all), the action has not
  run, the caller's state is untouched, the subscription is closed and no error has been
  raised; nothing emitted later changes that.
\<close>

theorem completion_without_terminal:
  assumes "\<forall>e\<in>set evs. \<not> terminal e"
  shows "afterNextNavigation action (map Next evs @ Complete # later) w =
       \<lparr>seen = 0, closed = True, errored = None, calls = 0,
        mapped = List.map_filter outcome evs, world = w\<rparr> \<and>
     afterNextNavigation action (Complete # later) w =
       \<lparr>seen = 0, closed = True, errored = None, calls = 0, mapped = [], world = w\<rparr>"
proof -
  have "afterNextNavigation action (map Next evs @ Complete # later) w =
      run action later (emit action Complete (afterNextNavigation action (map Next evs) w))"
    by (simp add: afterNextNavigation_def run_append)
  also have "emit action Complete (afterNextNavigation action (map Next evs) w) =
       \<lparr>seen = 0, closed = True, errored = None, calls = 0,
        mapped = List.map_filter outcome evs, world = w\<rparr>"
    by (simp add: afterNextNavigation_nonterminal [OF assms] rx_complete_def)
  finally have 1: "afterNextNavigation action (map Next evs @ Complete # later) w =
       \<lparr>seen = 0, closed = True, errored = None, calls = 0,
        mapped = List.map_filter outcome evs, world = w\<rparr>"
    by (simp add: run_closed)
  have "afterNextNavigation action (Complete # later) w =
       \<lparr>seen = 0, closed = True, errored = None, calls = 0, mapped = [], world = w\<rparr>"
    by (simp add: afterNextNavigation_def subscribe_def rx_complete_def run_closed)
  with 1 show ?thesis by simp
qed

theorem completion_without_terminal_witness:
  "afterNextNavigation Suc
     (map Next [NavigationCancel (Some Redirect), NavigationCancel (Some SupersededByNewNavigation)]
        @ Complete # []) (0::nat) =
     \<lparr>seen = 0, closed = True, errored = None, calls = 0,
      mapped = [REDIRECTING, REDIRECTING], world = 0\<rparr>"
proof -
  have evs: "\<forall>e\<in>set [NavigationCancel (Some Redirect),
      NavigationCancel (Some SupersededByNewNavigation)]. \<not> terminal e"
    by (simp add: terminal_def outcome_simps)
  show ?thesis
    using completion_without_terminal [OF evs, of Suc "[]" "0::nat"]
    by (simp add: List.map_filter_simps outcome_simps)
qed

text \<open>
  C6. An event that is not a NavigationEnd, NavigationCancel, NavigationError or
  NavigationSkipped leaves the subscription as it is, in every state. A run over a
  sequence of events equals the run over its recognized events alone, and so do the
  states right after each recognized event; two sequences with the same recognized
  events give the same result. The events OtherEvent, NavigationEnd make the action run
  once, at NavigationEnd, as NavigationEnd alone does.
\<close>

theorem unrecognized_events_ignored:
  "(\<not> isNavigationOutcome e \<longrightarrow> emit action (Next e) s = s) \<and>
   run action (map Next evs) s = run action (map Next (filter isNavigationOutcome evs)) s \<and>
   trace action (map Next (filter isNavigationOutcome evs)) s =
     map snd (filter (\<lambda>(e, s'). isNavigationOutcome e)
       (zip evs (trace action (map Next evs) s))) \<and>
   (filter isNavigationOutcome evs = filter isNavigationOutcome evs' \<longrightarrow>
      afterNextNavigation action (map Next evs) w =
      afterNextNavigation action (map Next evs') w) \<and>
   \<not> isNavigationOutcome (OtherEvent k) \<and>
   \<not> isNavigationOutcome Nullish \<and>
   afterNextNavigation action [Next (OtherEvent k)] w = subscribe w \<and>
   calls (afterNextNavigation action [Next (OtherEvent k), Next NavigationEnd] w) = 1 \<and>
   afterNextNavigation action [Next (OtherEvent k), Next NavigationEnd] w =
     afterNextNavigation action [Next NavigationEnd] w"
proof -
  have 1: "\<not> isNavigationOutcome e \<longrightarrow> emit action (Next e) s = s"
    by (simp add: emit_unrecognized del: emit.simps)
  have 2: "run action (map Next evs) s = run action (map Next (filter isNavigationOutcome evs)) s"
    by (simp add: run_filter_recognized)
  have 3: "filter isNavigationOutcome evs = filter isNavigationOutcome evs' \<longrightarrow>
      afterNextNavigation action (map Next evs) w =
      afterNextNavigation action (map Next evs') w"
    unfolding afterNextNavigation_def
    by (metis run_filter_recognized)
  have 4: "\<not> isNavigationOutcome (OtherEvent k)" "\<not> isNavigationOutcome Nullish"
    by (simp_all add: isNavigationOutcome_def)
  have 5: "afterNextNavigation action [Next (OtherEvent k)] w = subscribe w"
    by (simp add: afterNextNavigation_def emit_unrecognized 4 del: emit.simps)
  have 6: "afterNextNavigation action [Next (OtherEvent k), Next NavigationEnd] w =
     afterNextNavigation action [Next NavigationEnd] w"
    by (simp add: afterNextNavigation_def emit_unrecognized 4 del: emit.simps)
  have "terminal NavigationEnd"
    by (simp add: terminal_def outcome_simps)
  then have "afterNextNavigation action (map Next [] @ Next NavigationEnd # []) w =
     \<lparr>seen = 1, closed = True, errored = None, calls = 1,
      mapped = List.map_filter outcome ([] @ [NavigationEnd]), world = action w\<rparr>"
    by (intro afterNextNavigation_first_terminal) simp_all
  then have 7: "calls (afterNextNavigation action [Next (OtherEvent k), Next NavigationEnd] w) = 1"
    by (simp add: 6)
  from 1 2 3 4 5 6 7 trace_filter_recognized show ?thesis
    by blast
qed

theorem unrecognized_events_ignored_witness:
  "emit Suc (Next (OtherEvent 7)) (subscribe (0::nat)) = subscribe 0 \<and>
   afterNextNavigation Suc (map Next [OtherEvent 1, NavigationEnd, Nullish]) (0::nat) =
     afterNextNavigation Suc (map Next [NavigationEnd, OtherEvent 2]) 0"
proof -
  have a: "\<not> isNavigationOutcome (OtherEvent 7)"
    by (simp add: isNavigationOutcome_def)
  have b: "filter isNavigationOutcome [OtherEvent 1, NavigationEnd, Nullish] =
      filter isNavigationOutcome [NavigationEnd, OtherEvent 2]"
    by (simp add: isNavigationOutcome_def)
  show ?thesis
    using a b
      unrecognized_events_ignored [of "OtherEvent 7" Suc "subscribe (0::nat)" "[OtherEvent 1, NavigationEnd, Nullish]"
        "[NavigationEnd, OtherEvent 2]" "0::nat" 0]
    by blast
qed

text \<open>
  C7. The watcher raises no error of its own: the function given to \<^verbatim>\<open>map\<close> returns a
  result for every value (also for one the first filter would drop, and for a
  NavigationCancel with any code or none), no notification changes the error state of the
  subscription, and after every sequence of notifications no error has been raised.
\<close>

theorem watcher_never_errors:
  "(\<exists>r. toNavigationResult e = Inr r) \<and>
   errored (emit action n s) = errored s \<and>
   errored (afterNextNavigation action ns w) = None"
  using toNavigationResult_total [of e] emit_errored [of action n s]
  by (simp add: afterNextNavigation_def run_errored subscribe_def del: emit.simps)

text \<open>
  C8. What the watcher does is a function of the notifications alone. Two runs over the
  same notifications call the action the same number of times, at the same positions,
  and unsubscribe at the same point, whatever the callbacks and the caller's states are
  (the same callback in both runs in particular): after the whole sequence, and after
  each notification of it.
\<close>

theorem watcher_deterministic:
  "observe (afterNextNavigation action ns w) = observe (afterNextNavigation action' ns w') \<and>
   mapped (afterNextNavigation action ns w) = mapped (afterNextNavigation action' ns w') \<and>
   seen (afterNextNavigation action ns w) = seen (afterNextNavigation action' ns w') \<and>
   map observe (trace action ns (subscribe w)) = map observe (trace action' ns (subscribe w')) \<and>
   map mapped (trace action ns (subscribe w)) = map mapped (trace action' ns (subscribe w'))"
proof -
  have "observe (run action ns (subscribe w)) = observe (run action' ns (subscribe w')) \<and>
     mapped (run action ns (subscribe w)) = mapped (run action' ns (subscribe w')) \<and>
     seen (run action ns (subscribe w)) = seen (run action' ns (subscribe w'))"
    by (rule run_behaviour) (simp_all add: subscribe_def)
  moreover
  have "map observe (trace action ns (subscribe w)) = map observe (trace action' ns (subscribe w')) \<and>
     map mapped (trace action ns (subscribe w)) = map mapped (trace action' ns (subscribe w'))"
    by (rule trace_behaviour) (simp_all add: subscribe_def)
  ultimately show ?thesis
    by (simp add: afterNextNavigation_def)
qed

section \<open>The claim about the server context\<close>

lemma DEFAULT_allowed: "\<forall>c\<in>set DEFAULT_SERVER_CONTEXT. allowedChar c"
  by (simp add: DEFAULT_SERVER_CONTEXT_def js_def allowedChar_def)

lemma DEFAULT_val: "DEFAULT_SERVER_CONTEXT = [111, 116, 104, 101, 114]"
  by (simp add: DEFAULT_SERVER_CONTEXT_def js_def)

lemma sanitize_allowed: "\<forall>c\<in>set (sanitizeServerContext s). allowedChar c"
  using DEFAULT_allowed by (simp add: sanitizeServerContext_def Let_def)

lemma filter_id: "\<forall>c\<in>set s. allowedChar c \<Longrightarrow> filter allowedChar s = s"
  by (induction s) simp_all

text \<open>
  C9. For every string, \<^verbatim>\<open>sanitizeServerContext\<close> returns a string that is not empty and
  has only code units of \<^verbatim>\<open>[a-zA-Z0-9-]\<close>; when the input has no such code unit (the
  empty string included) the result is \<^verbatim>\<open>other\<close>; and sanitizing twice is sanitizing once.
\<close>

theorem sanitizeServerContext_charset:
  "sanitizeServerContext s \<noteq> [] \<and>
   (\<forall>c\<in>set (sanitizeServerContext s). allowedChar c) \<and>
   ((\<forall>c\<in>set s. \<not> allowedChar c) \<longrightarrow> sanitizeServerContext s = DEFAULT_SERVER_CONTEXT) \<and>
   sanitizeServerContext [] = DEFAULT_SERVER_CONTEXT \<and>
   DEFAULT_SERVER_CONTEXT = js ''other'' \<and>
   sanitizeServerContext (sanitizeServerContext s) = sanitizeServerContext s"
proof -
  have 1: "sanitizeServerContext s \<noteq> []"
    by (simp add: sanitizeServerContext_def Let_def DEFAULT_val)
  have 2: "(\<forall>c\<in>set s. \<not> allowedChar c) \<longrightarrow> sanitizeServerContext s = DEFAULT_SERVER_CONTEXT"
    by (simp add: sanitizeServerContext_def Let_def filter_empty_conv)
  have 3: "sanitizeServerContext [] = DEFAULT_SERVER_CONTEXT"
    by (simp add: sanitizeServerContext_def)
  have "filter allowedChar (sanitizeServerContext s) = sanitizeServerContext s"
    using sanitize_allowed by (rule filter_id)
  with 1 have 4: "sanitizeServerContext (sanitizeServerContext s) = sanitizeServerContext s"
    by (simp add: sanitizeServerContext_def [of "sanitizeServerContext s"] Let_def)
  from 1 2 3 4 sanitize_allowed show ?thesis
    by (simp add: DEFAULT_SERVER_CONTEXT_def)
qed

theorem sanitizeServerContext_charset_witness:
  "sanitizeServerContext (js ''s s/r-1!'') = js ''ssr-1'' \<and>
   sanitizeServerContext (js ''!! ??'') = js ''other'' \<and>
   sanitizeServerContext (sanitizeServerContext (js ''s s/r-1!'')) = js ''ssr-1''"
proof -
  have a: "sanitizeServerContext (js ''s s/r-1!'') = js ''ssr-1''"
    by (simp add: sanitizeServerContext_def js_def allowedChar_def)
  have b: "\<forall>c\<in>set (js ''!! ??''). \<not> allowedChar c"
    by (simp add: js_def allowedChar_def)
  note idem = sanitizeServerContext_charset [of "js ''s s/r-1!''", THEN conjunct2, THEN conjunct2, THEN conjunct2,
      THEN conjunct2, THEN conjunct2]
  note dflt = sanitizeServerContext_charset [of "js ''!! ??''", THEN conjunct2, THEN conjunct2, THEN conjunct1, THEN mp, OF b]
  have c: "sanitizeServerContext (sanitizeServerContext (js ''s s/r-1!'')) = js ''ssr-1''"
    using idem a by (rule trans)
  have d: "sanitizeServerContext (js ''!! ??'') = js ''other''"
    using dflt by (simp only: DEFAULT_SERVER_CONTEXT_def)
  from a d c show ?thesis by (intro conjI)
qed

section \<open>The claim about the random application id\<close>

lemma floor_bound:
  assumes "m * 2 ^ j < 25 * 2 ^ k" and "j < k"
  shows "Math_floor (Double m (int j - int k)) < 25"
proof -
  have "(2::nat) ^ k = 2 ^ (k - j) * 2 ^ j"
    using assms(2) by (simp flip: power_add)
  with assms(1) have "m * 2 ^ j < (25 * 2 ^ (k - j)) * 2 ^ j"
    by simp
  then have "m < 25 * 2 ^ (k - j)"
    by simp
  then have "m div 2 ^ (k - j) < 25"
    by (simp add: less_mult_imp_div_less)
  moreover have "nat (int k - int j) = k - j"
    by simp
  ultimately show ?thesis
    using assms(2) by (simp add: Math_floor_def)
qed

lemma round_to_double_exact:
  "floorlog 2 p \<le> 53 \<Longrightarrow> round_to_double p e = Double p e"
  by (simp add: round_to_double_def)

lemma round_to_double_rounded:
  assumes n: "53 < floorlog 2 p"
  shows "\<exists>m' j. round_to_double p e = Double m' (e + int j) \<and>
     m' * 2 ^ j \<le> p + 2 ^ (floorlog 2 p - 54) \<and> 2 ^ 52 \<le> m'"
proof -
  define sh where "sh = floorlog 2 p - 53"
  define half :: nat where "half = 2 ^ (sh - 1)"
  define q where "q = p div 2 ^ sh"
  define r where "r = p mod 2 ^ sh"
  define m where "m = (if half < r \<or> (r = half \<and> odd q) then q + 1 else q)"
  have sh: "0 < sh" "floorlog 2 p = sh + 53" "floorlog 2 p - 54 = sh - 1"
    using n by (simp_all add: sh_def)
  have two_half: "(2::nat) ^ sh = 2 * half"
    using sh(1) by (cases sh) (simp_all add: half_def)
  have p: "p = q * 2 ^ sh + r"
    unfolding q_def r_def by (rule div_mult_mod_eq [symmetric])
  have "0 < p"
    using n by (cases "p = 0") (simp_all add: floorlog_def)
  then have "2 ^ (floorlog 2 p - 1) \<le> p"
    using floorlog_bounds [of p 2] by simp
  then have "2 ^ (52 + sh) \<le> p"
    by (simp add: sh(2))
  then have "2 ^ 52 * 2 ^ sh \<le> p"
    by (simp only: power_add)
  then have q52: "2 ^ 52 \<le> q"
    unfolding q_def by (simp add: less_eq_div_iff_mult_less_eq)
  have m_le: "m * 2 ^ sh \<le> p + half"
  proof (cases "half < r \<or> (r = half \<and> odd q)")
    case True
    then have "half \<le> r" by auto
    moreover have "m * 2 ^ sh = q * 2 ^ sh + 2 * half"
      using True by (simp add: m_def two_half algebra_simps)
    ultimately show ?thesis
      using p by linarith
  next
    case False
    then have "m = q" by (simp add: m_def)
    then show ?thesis using p by simp
  qed
  have m52: "2 ^ 52 \<le> m"
    using q52 by (simp add: m_def)
  have rd: "round_to_double p e =
      (if m = 2 ^ 53 then Double (2 ^ 52) (e + int sh + 1) else Double m (e + int sh))"
    using n unfolding round_to_double_def Let_def m_def half_def r_def q_def sh_def
    by simp
  show ?thesis
  proof (cases "m = 2 ^ 53")
    case True
    have "(2::nat) ^ 52 * 2 ^ (sh + 1) = m * 2 ^ sh"
      by (simp add: True)
    with m_le have "(2::nat) ^ 52 * 2 ^ (sh + 1) \<le> p + 2 ^ (floorlog 2 p - 54)"
      by (simp only: sh(3) half_def)
    moreover have "round_to_double p e = Double (2 ^ 52) (e + int (sh + 1))"
      using True by (simp add: rd add.assoc)
    ultimately show ?thesis
      by blast
  next
    case False
    then have "round_to_double p e = Double m (e + int sh)"
      by (simp add: rd)
    moreover have "m * 2 ^ sh \<le> p + 2 ^ (floorlog 2 p - 54)"
      using m_le by (simp only: sh(3) half_def)
    ultimately show ?thesis
      using m52 by blast
  qed
qed

lemma Math_floor_times25:
  assumes "is_double r" and "below_one r"
  shows "Math_floor (times25 r) < 25"
proof (cases r)
  case (Double m e)
  show ?thesis
  proof (cases "m = 0")
    case True
    then show ?thesis
      by (simp add: Double times25_def round_to_double_def Math_floor_def floorlog_def)
  next
    case False
    with assms(2) have e: "e < 0" and mk: "m < 2 ^ nat (- e)"
      by (simp_all add: Double below_one_def)
    define k where "k = nat (- e)"
    have ek: "e = - int k" and k: "0 < k"
      using e by (simp_all add: k_def)
    have m53: "m < 2 ^ 53"
      using assms(1) by (simp add: Double is_double_def)
    have mk': "m * 25 + 25 \<le> 25 * 2 ^ k"
      using mk by (simp add: k_def)
    show ?thesis
    proof (cases "floorlog 2 (m * 25) \<le> 53")
      case True
      have "m * 25 * 2 ^ 0 < 25 * 2 ^ k"
        using mk' by simp
      then have "Math_floor (Double (m * 25) (int 0 - int k)) < 25"
        using k by (rule floor_bound)
      then show ?thesis
        by (simp add: Double times25_def round_to_double_exact [OF True] ek)
    next
      case False
      then have n: "53 < floorlog 2 (m * 25)" by simp
      from round_to_double_rounded [OF n, of e]
      obtain m' j where rd: "round_to_double (m * 25) e = Double m' (e + int j)"
        and le: "m' * 2 ^ j \<le> m * 25 + 2 ^ (floorlog 2 (m * 25) - 54)"
        and m52: "2 ^ 52 \<le> m'"
        by blast
      have "m * 25 < 2 ^ 58"
        using m53 by simp
      then have "floorlog 2 (m * 25) \<le> 58"
        by (simp add: floorlog_le_iff)
      then have "(2::nat) ^ (floorlog 2 (m * 25) - 54) \<le> 2 ^ 4"
        by (intro power_increasing) simp_all
      with le have "m' * 2 ^ j \<le> m * 25 + 16"
        by simp
      with mk' have lt: "m' * 2 ^ j < 25 * 2 ^ k"
        by linarith
      have "2 ^ 52 * 2 ^ j \<le> m' * 2 ^ j"
        using m52 by simp
      with lt have "(2::nat) ^ 52 * 2 ^ j < 25 * 2 ^ k"
        by linarith
      also have "(25::nat) * 2 ^ k < 2 ^ 5 * 2 ^ k"
        by simp
      finally have "(2::nat) ^ (52 + j) < 2 ^ (5 + k)"
        by (simp add: power_add)
      then have "52 + j < 5 + k"
        by (simp only: power_strict_increasing_iff [of 2] one_less_numeral_iff num.simps
            semiring_norm)
      then have "j < k" by simp
      with lt have "Math_floor (Double m' (int j - int k)) < 25"
        by (rule floor_bound)
      moreover have "times25 r = Double m' (e + int j)"
        by (simp add: Double times25_def rd)
      moreover have "e + int j = int j - int k"
        by (simp add: ek)
      ultimately show ?thesis
        by simp
    qed
  qed
qed


lemma fromCharCode_range:
  assumes "n < 25"
  shows "fromCharCode (97 + n) = [c] \<Longrightarrow> of_char CHR ''a'' \<le> c \<and> c \<le> of_char CHR ''y''"
proof -
  assume "fromCharCode (97 + n) = [c]"
  then have c: "c = of_nat (97 + n)"
    by (simp add: fromCharCode_def)
  have "unat c = 97 + n"
    unfolding c using assms by (simp add: unat_of_nat del: of_nat_add)
  then show ?thesis
    using assms by (simp add: word_le_nat_alt)
qed

lemma randomChar_range:
  assumes "is_double (g 0)" and "below_one (g 0)"
  shows "\<exists>c. randomChar g = ([c], \<lambda>i. g (Suc i)) \<and>
     of_char CHR ''a'' \<le> c \<and> c \<le> of_char CHR ''y''"
proof -
  have "Math_floor (times25 (g 0)) < 25"
    using assms by (rule Math_floor_times25)
  then have "of_char CHR ''a'' \<le> (of_nat (97 + Math_floor (times25 (g 0))) :: 16 word) \<and>
      (of_nat (97 + Math_floor (times25 (g 0))) :: 16 word) \<le> of_char CHR ''y''"
    by (rule fromCharCode_range) (simp add: fromCharCode_def)
  then show ?thesis
    by (simp add: randomChar_def Math_random_def fromCharCode_def del: of_nat_add)
qed

text \<open>
  C10. When every draw of \<^verbatim>\<open>Math.random()\<close> is a double below 1,
  \<^verbatim>\<open>_appIdRandomProviderFactory\<close> returns three code units, each from \<^verbatim>\<open>a\<close> to \<^verbatim>\<open>y\<close>;
  \<^verbatim>\<open>z\<close> does not occur. It uses up three draws.
\<close>

theorem appIdRandomProviderFactory_a_to_y:
  assumes "\<forall>i. is_double (g i) \<and> below_one (g i)"
  shows "length (fst (appIdRandomProviderFactory g)) = 3 \<and>
     (\<forall>c\<in>set (fst (appIdRandomProviderFactory g)).
        of_char CHR ''a'' \<le> c \<and> c \<le> of_char CHR ''y'') \<and>
     of_char CHR ''z'' \<notin> set (fst (appIdRandomProviderFactory g)) \<and>
     snd (appIdRandomProviderFactory g) = (\<lambda>i. g (i + 3))"
proof -
  let ?g1 = "\<lambda>i. g (Suc i)"
  let ?g2 = "\<lambda>i. g (Suc (Suc i))"
  let ?g3 = "\<lambda>i. g (Suc (Suc (Suc i)))"
  from assms obtain c1 where c1: "randomChar g = ([c1], ?g1)"
      "of_char CHR ''a'' \<le> c1 \<and> c1 \<le> of_char CHR ''y''"
    using randomChar_range [of g] by blast
  from assms obtain c2 where c2: "randomChar ?g1 = ([c2], ?g2)"
      "of_char CHR ''a'' \<le> c2 \<and> c2 \<le> of_char CHR ''y''"
    using randomChar_range [of ?g1] by blast
  from assms obtain c3 where c3: "randomChar ?g2 = ([c3], ?g3)"
      "of_char CHR ''a'' \<le> c3 \<and> c3 \<le> of_char CHR ''y''"
    using randomChar_range [of ?g2] by blast
  have app: "appIdRandomProviderFactory g = ([c1, c2, c3], ?g3)"
    by (simp add: appIdRandomProviderFactory_def c1(1) c2(1) c3(1))
  have z: "\<not> (of_char CHR ''z'' :: 16 word) \<le> of_char CHR ''y''"
    by simp
  have "of_char CHR ''z'' \<notin> set [c1, c2, c3]"
    using c1(2) c2(2) c3(2) z by auto
  moreover have "?g3 = (\<lambda>i. g (i + 3))"
    by (simp add: numeral_3_eq_3)
  ultimately show ?thesis
    using c1(2) c2(2) c3(2) by (simp add: app)
qed

theorem appIdRandomProviderFactory_a_to_y_witness:
  "fst (appIdRandomProviderFactory (\<lambda>i. Double 9007199254740991 (- 53))) = [121, 121, 121] \<and>
   length (fst (appIdRandomProviderFactory (\<lambda>i. Double 9007199254740991 (- 53)))) = 3 \<and>
   of_char CHR ''z'' \<notin> set (fst (appIdRandomProviderFactory (\<lambda>i. Double 9007199254740991 (- 53))))"
proof -
  have h: "\<forall>i::nat. is_double (Double 9007199254740991 (- 53)) \<and>
      below_one (Double 9007199254740991 (- 53))"
    by (simp add: is_double_def below_one_def)
  have t: "times25 (Double 9007199254740991 (- 53)) = Double 7036874417766399 (- 48)"
    by (simp add: times25_def round_to_double_def compute_floorlog Let_def)
  have "fst (appIdRandomProviderFactory (\<lambda>i. Double 9007199254740991 (- 53))) = [121, 121, 121]"
    by (simp add: appIdRandomProviderFactory_def randomChar_def Math_random_def t
        Math_floor_def fromCharCode_def)
  with appIdRandomProviderFactory_a_to_y [OF h] show ?thesis
    by simp
qed

end
